theory Spec2Isabelle
  imports Main "HOL-Library.Word"
begin

unbundle bit_operations_syntax

section \<open>S-DES tables (sdes.c, lines 4-31)\<close>

type_synonym u8 = "8 word"
type_synonym u16 = "16 word"

text \<open>Table entries are 1-based positions counted from the left.\<close>

definition P10 :: "nat list" where
  "P10 = [3, 5, 2, 7, 4, 10, 1, 9, 8, 6]"

definition P8 :: "nat list" where
  "P8 = [6, 3, 7, 4, 8, 5, 10, 9]"

definition IP :: "nat list" where
  "IP = [2, 6, 3, 1, 4, 8, 5, 7]"

definition IP_INV :: "nat list" where
  "IP_INV = [4, 1, 3, 5, 7, 2, 8, 6]"

definition EP :: "nat list" where
  "EP = [4, 1, 2, 3, 2, 3, 4, 1]"

definition P4 :: "nat list" where
  "P4 = [2, 4, 3, 1]"

definition S0 :: "u8 list list" where
  "S0 = [[1, 0, 3, 2], [3, 2, 1, 0], [0, 2, 1, 3], [3, 1, 3, 2]]"

definition S1 :: "u8 list list" where
  "S1 = [[0, 1, 2, 3], [2, 0, 1, 3], [3, 0, 1, 0], [2, 1, 0, 3]]"

section \<open>Bit permutation engine (sdes.c, lines 33-55)\<close>

text \<open>
  \<open>get_bit\<close>: \<^verbatim>\<open>(x >> (nbits - index_from_left)) & 1\<close>. Every call site passes a table
  entry between 1 and \<open>nbits\<close>, so the shift amount is never negative.
\<close>

definition get_bit :: "u16 \<Rightarrow> nat \<Rightarrow> nat \<Rightarrow> u16" where
  "get_bit x index_from_left nbits =
     (let pos_from_right = nbits - index_from_left
      in drop_bit pos_from_right x AND 1)"

text \<open>The body of the \<^verbatim>\<open>for\<close> loop of \<open>permute\<close>, run over the remaining table entries.\<close>

fun permute_loop :: "u16 \<Rightarrow> nat list \<Rightarrow> nat \<Rightarrow> u16 \<Rightarrow> u16" where
  "permute_loop inp [] inbits out = out"
| "permute_loop inp (t # tab) inbits out =
     (let b = get_bit inp t inbits
      in permute_loop inp tab inbits (push_bit 1 out OR (b AND 1)))"

definition permute :: "u16 \<Rightarrow> nat list \<Rightarrow> nat \<Rightarrow> nat \<Rightarrow> u16" where
  "permute inp tab len inbits = permute_loop inp (take len tab) inbits 0"

text \<open>
  \<open>rol\<close>: the shifts are computed in \<^verbatim>\<open>int\<close> in C and masked to \<open>width\<close> bits before
  the result is narrowed to 16 bits; the mask makes the 16-bit computation agree.
\<close>

definition rol :: "u16 \<Rightarrow> nat \<Rightarrow> nat \<Rightarrow> u16" where
  "rol val sh width =
     (let mask = push_bit width 1 - 1;
          v = val AND mask
      in (push_bit sh v OR drop_bit (width - sh) v) AND mask)"

section \<open>Key schedule (sdes.c, lines 57-78)\<close>

text \<open>The two output pointers are modelled as the returned pair \<open>(K1, K2)\<close>.\<close>

definition sdes_generate_subkeys :: "u16 \<Rightarrow> u8 \<times> u8" where
  "sdes_generate_subkeys key10 =
     (let p10 = permute key10 P10 10 10;
          left = drop_bit 5 p10 AND 0x1F;
          right = p10 AND 0x1F;
          left1 = rol left 1 5;
          right1 = rol right 1 5;
          ls1 = push_bit 5 left1 OR right1;
          k1 = ucast (permute ls1 P8 8 10);
          left2 = rol left1 2 5;
          right2 = rol right1 2 5;
          ls2 = push_bit 5 left2 OR right2;
          k2 = ucast (permute ls2 P8 8 10)
      in (k1, k2))"

section \<open>Block cipher core (sdes.c, lines 80-135)\<close>

definition fk :: "u8 \<Rightarrow> u8 \<Rightarrow> u8" where
  "fk inp subkey =
     (let L = drop_bit 4 inp AND 0x0F;
          R = inp AND 0x0F;
          ep_in = R;
          EPout = (ucast (permute (ucast ep_in) EP 8 4) :: u8);
          x = EPout XOR subkey;
          left4 = drop_bit 4 x AND 0x0F;
          right4 = x AND 0x0F;
          r0 = drop_bit 2 (left4 AND 0x8) OR (left4 AND 0x1);
          c0 = drop_bit 1 left4 AND 0x3;
          r1 = drop_bit 2 (right4 AND 0x8) OR (right4 AND 0x1);
          c1 = drop_bit 1 right4 AND 0x3;
          s0 = S0 ! unat r0 ! unat c0;
          s1 = S1 ! unat r1 ! unat c1;
          s = push_bit 2 s0 OR s1;
          p4 = (ucast (permute (ucast s) P4 4 4) :: u8);
          outL = L XOR p4
      in push_bit 4 outL OR R)"

definition ip :: "u8 \<Rightarrow> u8" where
  "ip x = ucast (permute (ucast x) IP 8 8)"

definition ip_inv :: "u8 \<Rightarrow> u8" where
  "ip_inv x = ucast (permute (ucast x) IP_INV 8 8)"

definition swap_halves :: "u8 \<Rightarrow> u8" where
  "swap_halves x = push_bit 4 x OR drop_bit 4 x"

definition sdes_encrypt_byte :: "u8 \<Rightarrow> u8 \<Rightarrow> u8 \<Rightarrow> u8" where
  "sdes_encrypt_byte inp K1 K2 =
     (let x = ip inp;
          x = fk x K1;
          x = swap_halves x;
          x = fk x K2;
          x = ip_inv x
      in x)"

definition sdes_decrypt_byte :: "u8 \<Rightarrow> u8 \<Rightarrow> u8 \<Rightarrow> u8" where
  "sdes_decrypt_byte inp K1 K2 =
     (let x = ip inp;
          x = fk x K2;
          x = swap_halves x;
          x = fk x K1;
          x = ip_inv x
      in x)"

section \<open>Key parsing (sdes.c, lines 137-155)\<close>

datatype key_error = NullArgument | InvalidKeyFormat | KeyTooShort

text \<open>The integer the C function returns for each outcome.\<close>

fun sdes_status :: "key_error + u16 \<Rightarrow> int" where
  "sdes_status (Inl NullArgument) = -1"
| "sdes_status (Inl InvalidKeyFormat) = -2"
| "sdes_status (Inl KeyTooShort) = -3"
| "sdes_status (Inr k) = 0"

text \<open>
  The scanning loop. It stops at the terminating NUL (the end of the list, or a NUL
  character), at a line feed or at a carriage return, and hands back the index \<open>n\<close> and the
  accumulator \<open>k\<close>. The \<^verbatim>\<open>continue\<close> of the whitespace branch still runs \<^verbatim>\<open>++n\<close>.
\<close>

fun parse_loop :: "string \<Rightarrow> nat \<Rightarrow> u16 \<Rightarrow> key_error + (nat \<times> u16)" where
  "parse_loop [] n k = Inr (n, k)"
| "parse_loop (ch # rest) n k =
     (if ch = CHR 0x00 \<or> ch = CHR 0x0A \<or> ch = CHR 0x0D then Inr (n, k)
      else if ch = CHR ''0'' \<or> ch = CHR ''1''
        then parse_loop rest (Suc n)
               (push_bit 1 k OR of_nat (of_char ch - of_char (CHR ''0'')))
      else if ch = CHR '' '' \<or> ch = CHR 0x09 then parse_loop rest (Suc n) k
      else Inl InvalidKeyFormat)"

text \<open>
  \<open>bits\<close> is \<open>None\<close> for a null string pointer; \<open>out_key10\<close> tells whether the output
  pointer is non-null. The parsed key is the value stored through the output pointer.
\<close>

definition sdes_parse_key10_bits :: "string option \<Rightarrow> bool \<Rightarrow> key_error + u16" where
  "sdes_parse_key10_bits bits out_key10 =
     (case bits of
        None \<Rightarrow> Inl NullArgument
      | Some s \<Rightarrow>
          if \<not> out_key10 then Inl NullArgument
          else (case parse_loop s 0 0 of
                  Inl e \<Rightarrow> Inl e
                | Inr (n, k) \<Rightarrow> if n < 10 then Inl KeyTooShort else Inr (k AND 0x03FF)))"

section \<open>Chaining modes (bmper.c, lines 113-162)\<close>

datatype sdes_mode_t = MODE_ECB | MODE_CBC | MODE_CTR

text \<open>
  Each \<^verbatim>\<open>while ((c = fgetc(fi)) != EOF)\<close> loop reads the remaining bytes of the input in
  order and writes one byte per byte read: the input is a list of bytes, the output the
  list of bytes written.
\<close>

fun ecb_encrypt :: "u8 \<Rightarrow> u8 \<Rightarrow> u8 list \<Rightarrow> u8 list" where
  "ecb_encrypt K1 K2 [] = []"
| "ecb_encrypt K1 K2 (c # cs) =
     (let out = sdes_encrypt_byte c K1 K2 in out # ecb_encrypt K1 K2 cs)"

fun cbc_encrypt :: "u8 \<Rightarrow> u8 \<Rightarrow> u8 \<Rightarrow> u8 list \<Rightarrow> u8 list" where
  "cbc_encrypt prev K1 K2 [] = []"
| "cbc_encrypt prev K1 K2 (c # cs) =
     (let x = c XOR prev;
          out = sdes_encrypt_byte x K1 K2
      in out # cbc_encrypt out K1 K2 cs)"

fun ctr_encrypt :: "u8 \<Rightarrow> u8 \<Rightarrow> u8 \<Rightarrow> u8 list \<Rightarrow> u8 list" where
  "ctr_encrypt ctr K1 K2 [] = []"
| "ctr_encrypt ctr K1 K2 (c # cs) =
     (let keystream = sdes_encrypt_byte ctr K1 K2;
          out = c XOR keystream
      in out # ctr_encrypt (ctr + 1) K1 K2 cs)"

fun ecb_decrypt :: "u8 \<Rightarrow> u8 \<Rightarrow> u8 list \<Rightarrow> u8 list" where
  "ecb_decrypt K1 K2 [] = []"
| "ecb_decrypt K1 K2 (c # cs) =
     (let out = sdes_decrypt_byte c K1 K2 in out # ecb_decrypt K1 K2 cs)"

fun cbc_decrypt :: "u8 \<Rightarrow> u8 \<Rightarrow> u8 \<Rightarrow> u8 list \<Rightarrow> u8 list" where
  "cbc_decrypt prev K1 K2 [] = []"
| "cbc_decrypt prev K1 K2 (c # cs) =
     (let dec = sdes_decrypt_byte c K1 K2;
          out = dec XOR prev
      in out # cbc_decrypt c K1 K2 cs)"

fun ctr_decrypt :: "u8 \<Rightarrow> u8 \<Rightarrow> u8 \<Rightarrow> u8 list \<Rightarrow> u8 list" where
  "ctr_decrypt ctr K1 K2 [] = []"
| "ctr_decrypt ctr K1 K2 (c # cs) =
     (let keystream = sdes_encrypt_byte ctr K1 K2;
          out = c XOR keystream
      in out # ctr_decrypt (ctr + 1) K1 K2 cs)"

text \<open>The dispatch on direction and mode; \<open>chain\<close> is the IV or the start counter.\<close>

definition process_pixels :: "bool \<Rightarrow> sdes_mode_t \<Rightarrow> u8 \<Rightarrow> u8 \<Rightarrow> u8 \<Rightarrow> u8 list \<Rightarrow> u8 list" where
  "process_pixels do_encrypt mode chain K1 K2 input =
     (if do_encrypt then
        (case mode of
           MODE_ECB \<Rightarrow> ecb_encrypt K1 K2 input
         | MODE_CBC \<Rightarrow> cbc_encrypt chain K1 K2 input
         | MODE_CTR \<Rightarrow> ctr_encrypt chain K1 K2 input)
      else
        (case mode of
           MODE_ECB \<Rightarrow> ecb_decrypt K1 K2 input
         | MODE_CBC \<Rightarrow> cbc_decrypt chain K1 K2 input
         | MODE_CTR \<Rightarrow> ctr_decrypt chain K1 K2 input))"

section \<open>Auxiliary definitions for the proofs\<close>

text \<open>
  The part of \<open>fk\<close> between the split into nibbles and the final XOR: expansion of the
  low nibble, key mixing, the two S-box lookups and P4, as one function of the low nibble
  and the subkey.
\<close>

definition fk_mix :: "u8 \<Rightarrow> u8 \<Rightarrow> u8" where
  "fk_mix R subkey =
     (let EPout = (ucast (permute (ucast R) EP 8 4) :: u8);
          x = EPout XOR subkey;
          left4 = drop_bit 4 x AND 0x0F;
          right4 = x AND 0x0F;
          r0 = drop_bit 2 (left4 AND 0x8) OR (left4 AND 0x1);
          c0 = drop_bit 1 left4 AND 0x3;
          r1 = drop_bit 2 (right4 AND 0x8) OR (right4 AND 0x1);
          c1 = drop_bit 1 right4 AND 0x3;
          s0 = S0 ! unat r0 ! unat c0;
          s1 = S1 ! unat r1 ! unat c1;
          s = push_bit 2 s0 OR s1
      in ucast (permute (ucast s) P4 4 4))"

text \<open>Two stages of \<open>fk_mix\<close>: expansion with key mixing, and the S-box lookups.\<close>

definition fk_expand :: "u8 \<Rightarrow> u8 \<Rightarrow> u8" where
  "fk_expand R subkey = (ucast (permute (ucast R) EP 8 4) :: u8) XOR subkey"

definition fk_sboxes :: "u8 \<Rightarrow> u8" where
  "fk_sboxes x =
     (let left4 = drop_bit 4 x AND 0x0F;
          right4 = x AND 0x0F;
          r0 = drop_bit 2 (left4 AND 0x8) OR (left4 AND 0x1);
          c0 = drop_bit 1 left4 AND 0x3;
          r1 = drop_bit 2 (right4 AND 0x8) OR (right4 AND 0x1);
          c1 = drop_bit 1 right4 AND 0x3;
          s0 = S0 ! unat r0 ! unat c0;
          s1 = S1 ! unat r1 ! unat c1
      in push_bit 2 s0 OR s1)"

text \<open>
  Vocabulary for the key parser: the part of the string the loop scans (up to the first
  NUL, line feed or carriage return), the two kinds of accepted characters, the
  significant bits in reading order, and the value of a bit string read
  most-significant-first.
\<close>

definition scanned :: "string \<Rightarrow> string" where
  "scanned s = takeWhile (\<lambda>ch. ch \<noteq> CHR 0x00 \<and> ch \<noteq> CHR 0x0A \<and> ch \<noteq> CHR 0x0D) s"

definition is_bit_char :: "char \<Rightarrow> bool" where
  "is_bit_char ch \<longleftrightarrow> ch = CHR ''0'' \<or> ch = CHR ''1''"

definition is_blank_char :: "char \<Rightarrow> bool" where
  "is_blank_char ch \<longleftrightarrow> ch = CHR '' '' \<or> ch = CHR 0x09"

definition key_char :: "char \<Rightarrow> bool" where
  "key_char ch \<longleftrightarrow> is_bit_char ch \<or> is_blank_char ch"

definition key_bits :: "string \<Rightarrow> bool list" where
  "key_bits s = map (\<lambda>ch. ch = CHR ''1'') (filter is_bit_char (scanned s))"

definition bin_value :: "bool list \<Rightarrow> nat" where
  "bin_value bs = foldl (\<lambda>v b. 2 * v + of_bool b) 0 bs"

section \<open>The algorithm as the specification words it\<close>

text \<open>
  The specification describes the cipher on bit strings written most-significant bit
  first. \<open>bits_msb n w\<close> is the string of the low \<open>n\<close> bits of a word; the \<open>spec_\<close>
  functions follow the specification's sentences on such strings, with its tables written
  out. A table entry is a 1-based position counted from the left.
\<close>

definition bits_msb :: "nat \<Rightarrow> 'a::len word \<Rightarrow> bool list" where
  "bits_msb n w = map (\<lambda>i. bit w (n - Suc i)) [0..<n]"

definition spec_select :: "nat list \<Rightarrow> bool list \<Rightarrow> bool list" where
  "spec_select tab bs = map (\<lambda>p. bs ! (p - 1)) tab"

definition spec_xor :: "bool list \<Rightarrow> bool list \<Rightarrow> bool list" where
  "spec_xor as bs = map2 (\<noteq>) as bs"

definition spec_S0 :: "nat list list" where
  "spec_S0 = [[1, 0, 3, 2], [3, 2, 1, 0], [0, 2, 1, 3], [3, 1, 3, 2]]"

definition spec_S1 :: "nat list list" where
  "spec_S1 = [[0, 1, 2, 3], [2, 0, 1, 3], [3, 0, 1, 0], [2, 1, 0, 3]]"

definition spec_sbox :: "nat list list \<Rightarrow> bool list \<Rightarrow> bool list" where
  "spec_sbox tbl h =
     (let bit0 = of_bool (h ! 0); bit1 = of_bool (h ! 1);
          bit2 = of_bool (h ! 2); bit3 = of_bool (h ! 3);
          row = 2 * bit0 + bit3;
          col = 2 * bit1 + bit2;
          v = tbl ! row ! col
      in [odd (v div 2), odd v])"

definition spec_fk :: "bool list \<Rightarrow> bool list \<Rightarrow> bool list" where
  "spec_fk blk key =
     (let hi = take 4 blk;
          lo = drop 4 blk;
          e = spec_select [4, 1, 2, 3, 2, 3, 4, 1] lo;
          x = spec_xor e key;
          s = spec_sbox spec_S0 (take 4 x) @ spec_sbox spec_S1 (drop 4 x);
          p = spec_select [2, 4, 3, 1] s
      in spec_xor hi p @ lo)"

definition spec_swap :: "bool list \<Rightarrow> bool list" where
  "spec_swap blk = drop 4 blk @ take 4 blk"

definition spec_encrypt :: "bool list \<Rightarrow> bool list \<Rightarrow> bool list \<Rightarrow> bool list" where
  "spec_encrypt blk k1 k2 =
     spec_select [4, 1, 3, 5, 7, 2, 8, 6]
       (spec_fk (spec_swap (spec_fk (spec_select [2, 6, 3, 1, 4, 8, 5, 7] blk) k1)) k2)"

definition spec_decrypt :: "bool list \<Rightarrow> bool list \<Rightarrow> bool list \<Rightarrow> bool list" where
  "spec_decrypt blk k1 k2 =
     spec_select [4, 1, 3, 5, 7, 2, 8, 6]
       (spec_fk (spec_swap (spec_fk (spec_select [2, 6, 3, 1, 4, 8, 5, 7] blk) k2)) k1)"

definition spec_subkeys :: "bool list \<Rightarrow> bool list \<times> bool list" where
  "spec_subkeys key =
     (let p = spec_select [3, 5, 2, 7, 4, 10, 1, 9, 8, 6] key;
          l = take 5 p;
          r = drop 5 p;
          l1 = rotate 1 l;
          r1 = rotate 1 r;
          k1 = spec_select [6, 3, 7, 4, 8, 5, 10, 9] (l1 @ r1);
          l3 = rotate 2 l1;
          r3 = rotate 2 r1;
          k2 = spec_select [6, 3, 7, 4, 8, 5, 10, 9] (l3 @ r3)
      in (k1, k2))"

section \<open>Bits of the permutation engine\<close>

lemmas sdes_tables = P10_def P8_def IP_def IP_INV_def EP_def P4_def S0_def S1_def

lemmas sdes_eval =
  get_bit_def permute_def rol_def sdes_generate_subkeys_def fk_def ip_def ip_inv_def
  swap_halves_def sdes_encrypt_byte_def sdes_decrypt_byte_def Let_def

text \<open>
  Every table entry lies between 1 and the input width of its call site, so \<open>get_bit\<close>
  never shifts by a negative amount, and the S-box entries fit in 2 bits.
\<close>

lemma tables_in_range:
  "list_all (\<lambda>t. 1 \<le> t \<and> t \<le> 10) P10" "list_all (\<lambda>t. 1 \<le> t \<and> t \<le> 10) P8"
  "list_all (\<lambda>t. 1 \<le> t \<and> t \<le> 8) IP" "list_all (\<lambda>t. 1 \<le> t \<and> t \<le> 8) IP_INV"
  "list_all (\<lambda>t. 1 \<le> t \<and> t \<le> 4) EP" "list_all (\<lambda>t. 1 \<le> t \<and> t \<le> 4) P4"
  "list_all (list_all (\<lambda>v. v < 4)) S0" "list_all (list_all (\<lambda>v. v < 4)) S1"
  by (simp_all add: sdes_tables)

lemma bit_get_bit: "bit (get_bit x t n) m \<longleftrightarrow> m = 0 \<and> bit x (n - t)"
  by (auto simp: get_bit_def bit_simps)

lemma bit_shift_in:
  "bit (push_bit 1 (out::u16) OR (b AND 1)) m \<longleftrightarrow>
     (if m = 0 then bit b 0 else m < 16 \<and> bit out (m - 1))"
  unfolding bit_or_iff bit_push_bit_iff bit_and_iff bit_1_iff by auto

text \<open>
  After the loop, output bit \<open>m\<close> (from the right) is the input bit named by the table
  entry \<open>m\<close> places from the table's end; bits above the table come from the accumulator.
\<close>

lemma bit_permute_loop:
  "bit (permute_loop inp tab inbits out) m \<longleftrightarrow>
     m < 16 \<and> (if m < length tab then bit inp (inbits - tab ! (length tab - Suc m))
               else bit out (m - length tab))"
proof (induction tab arbitrary: out)
  case Nil
  show ?case by (auto dest: bit_imp_le_length)
next
  case (Cons t tab)
  show ?case
    unfolding permute_loop.simps Let_def Cons.IH bit_shift_in bit_get_bit
    by (auto simp: nth_Cons' Suc_diff_le less_Suc_eq)
qed

lemma bit_permute:
  "bit (permute inp tab len inbits) m \<longleftrightarrow>
     m < 16 \<and> m < length (take len tab) \<and>
     bit inp (inbits - take len tab ! (length (take len tab) - Suc m))"
  unfolding permute_def bit_permute_loop by auto

lemma u8_eq_iff:
  "(a::u8) = b \<longleftrightarrow>
     (bit a 0 = bit b 0 \<and> bit a 1 = bit b 1 \<and> bit a 2 = bit b 2 \<and> bit a 3 = bit b 3 \<and>
      bit a 4 = bit b 4 \<and> bit a 5 = bit b 5 \<and> bit a 6 = bit b 6 \<and> bit a 7 = bit b 7)"
  (is "?l = ?r")
proof
  assume r: ?r
  show ?l
  proof (rule bit_word_eqI)
    fix n assume "n < LENGTH(8)"
    then have "n \<in> {0, 1, 2, 3, 4, 5, 6, 7}" by auto
    with r show "bit a n = bit b n" by auto
  qed
qed simp

section \<open>The block cipher is invertible\<close>

lemma bit_ip: "bit (ip x) m \<longleftrightarrow> m < 8 \<and> bit x (8 - IP ! (7 - m))"
proof -
  have "length IP = 8" by (simp add: IP_def)
  then show ?thesis
    unfolding ip_def bit_ucast_iff bit_permute by auto
qed

lemma bit_ip_inv: "bit (ip_inv x) m \<longleftrightarrow> m < 8 \<and> bit x (8 - IP_INV ! (7 - m))"
proof -
  have "length IP_INV = 8" by (simp add: IP_INV_def)
  then show ?thesis
    unfolding ip_inv_def bit_ucast_iff bit_permute by auto
qed

lemma ip_inv_ip: "ip_inv (ip x) = x"
  by (simp add: u8_eq_iff bit_ip bit_ip_inv IP_def IP_INV_def)

lemma ip_ip_inv: "ip (ip_inv x) = x"
  by (simp add: u8_eq_iff bit_ip bit_ip_inv IP_def IP_INV_def)

lemma bit_swap_halves:
  "bit (swap_halves x) m \<longleftrightarrow> m < 8 \<and> (if m < 4 then bit x (m + 4) else bit x (m - 4))"
  unfolding swap_halves_def bit_or_iff bit_push_bit_iff bit_drop_bit_eq
  by (auto simp: add.commute dest: bit_imp_le_length)

lemma swap_halves_twice: "swap_halves (swap_halves x) = x"
  by (rule bit_word_eqI) (auto simp: bit_swap_halves)

lemma bit_and_0F: "bit (w AND (0x0F::u8)) m \<longleftrightarrow> m < 4 \<and> bit w m"
proof -
  have e: "(0x0F::u8) = mask 4" by (simp add: mask_eq_exp_minus_1)
  show ?thesis unfolding e bit_and_iff bit_mask_iff by auto
qed

lemma fk_eq_mix:
  "fk inp subkey =
     push_bit 4 ((drop_bit 4 inp AND 0x0F) XOR fk_mix (inp AND 0x0F) subkey) OR (inp AND 0x0F)"
  unfolding fk_def fk_mix_def Let_def by (rule refl)

lemma bit_fk:
  "bit (fk inp subkey) m \<longleftrightarrow>
     (if m < 4 then bit inp m
      else m < 8 \<and> (bit inp m \<noteq> bit (fk_mix (inp AND 0x0F) subkey) (m - 4)))"
  unfolding fk_eq_mix bit_or_iff bit_push_bit_iff bit_xor_iff bit_and_0F bit_drop_bit_eq
  by (auto dest: bit_imp_le_length)

lemma fk_low: "fk inp subkey AND 0x0F = inp AND 0x0F"
  by (rule bit_word_eqI) (auto simp: bit_and_0F bit_fk)

lemma fk_twice: "fk (fk inp subkey) subkey = inp"
  by (rule bit_word_eqI) (auto simp: bit_fk fk_low)

lemma dec_enc: "sdes_decrypt_byte (sdes_encrypt_byte b K1 K2) K1 K2 = b"
  by (simp add: sdes_decrypt_byte_def sdes_encrypt_byte_def ip_ip_inv ip_inv_ip fk_twice
      swap_halves_twice)

lemma enc_dec: "sdes_encrypt_byte (sdes_decrypt_byte b K1 K2) K1 K2 = b"
  by (simp add: sdes_decrypt_byte_def sdes_encrypt_byte_def ip_ip_inv ip_inv_ip fk_twice
      swap_halves_twice)

lemma inj_encrypt: "sdes_encrypt_byte a K1 K2 = sdes_encrypt_byte b K1 K2 \<longleftrightarrow> a = b"
  by (metis dec_enc)

text \<open>
  C1. For every master key \<open>k\<close> (any 16-bit value, so every 10-bit one) and every byte \<open>b\<close>,
  decrypting the encryption of \<open>b\<close> under the subkeys generated from \<open>k\<close> gives \<open>b\<close> back.
\<close>

theorem decrypt_encrypt_generated:
  "(case sdes_generate_subkeys k of
      (K1, K2) \<Rightarrow> sdes_decrypt_byte (sdes_encrypt_byte b K1 K2) K1 K2) = b"
  by (simp add: dec_enc split: prod.split)

text \<open>
  C10. For every pair of subkeys, generated or not, encrypting the decryption of a byte
  gives the byte back; encryption and decryption are bijections on bytes; and the round
  function applied twice with one subkey is the identity.
\<close>

theorem encrypt_decrypt_any_subkeys:
  "sdes_encrypt_byte (sdes_decrypt_byte b K1 K2) K1 K2 = b \<and>
   bij (\<lambda>x. sdes_encrypt_byte x K1 K2) \<and>
   bij (\<lambda>x. sdes_decrypt_byte x K1 K2) \<and>
   fk (fk x k) k = x"
proof -
  have "bij (\<lambda>x. sdes_encrypt_byte x K1 K2)"
    by (rule bij_betw_byWitness [where f' = "\<lambda>x. sdes_decrypt_byte x K1 K2"])
       (auto simp: dec_enc enc_dec)
  moreover have "bij (\<lambda>x. sdes_decrypt_byte x K1 K2)"
    by (rule bij_betw_byWitness [where f' = "\<lambda>x. sdes_encrypt_byte x K1 K2"])
       (auto simp: dec_enc enc_dec)
  ultimately show ?thesis
    by (simp add: enc_dec fk_twice)
qed

section \<open>Key schedule: known answer\<close>

text \<open>
  C4 (as amended). The master key 1010000010 (0x282) yields K1 = 10100100 (0xA4) and
  K2 = 01000011 (0x43).
\<close>

theorem subkeys_known_answer: "sdes_generate_subkeys 0x282 = (0xA4, 0x43)"
  by (simp add: sdes_eval sdes_tables)

text \<open>
  C4 (as stated) fails: the second subkey generated from 0x282 is not 10010100 (0x94).
\<close>

theorem subkeys_known_answer_refuted: "snd (sdes_generate_subkeys 0x282) \<noteq> 0x94"
  by (simp add: sdes_eval sdes_tables)

section \<open>Chaining modes\<close>

text \<open>
  C5. CBC decryption of the CBC encryption of any byte sequence, the empty one included,
  with the same IV and subkeys, is the original sequence.
\<close>

lemma xor_cancel_right: "(a XOR b) XOR b = (a::u8)"
  by (simp add: xor.assoc)

theorem cbc_round_trip: "cbc_decrypt iv K1 K2 (cbc_encrypt iv K1 K2 xs) = xs"
  by (induction xs arbitrary: iv) (simp_all add: Let_def dec_enc xor_cancel_right)

lemma ctr_decrypt_eq: "ctr_decrypt ctr K1 K2 xs = ctr_encrypt ctr K1 K2 xs"
  by (induction xs arbitrary: ctr) (simp_all add: Let_def)

lemma ctr_encrypt_twice: "ctr_encrypt ctr K1 K2 (ctr_encrypt ctr K1 K2 xs) = xs"
  by (induction xs arbitrary: ctr) (simp_all add: Let_def xor_cancel_right)

lemma ctr_encrypt_nth:
  "i < length xs \<Longrightarrow>
   ctr_encrypt ctr K1 K2 xs ! i = xs ! i XOR sdes_encrypt_byte (ctr + of_nat i) K1 K2"
proof (induction xs arbitrary: ctr i)
  case Nil
  then show ?case by simp
next
  case (Cons x xs)
  show ?case
  proof (cases i)
    case 0
    then show ?thesis by (simp add: Let_def)
  next
    case (Suc j)
    with Cons.prems have "j < length xs" by simp
    from Cons.IH [OF this, of "ctr + 1"] Suc show ?thesis
      by (simp add: Let_def add.assoc)
  qed
qed

text \<open>
  C6. The CTR transform applied twice with the same start counter and subkeys is the
  identity on every byte sequence, of any length (the 8-bit counter wraps from 255 to 0),
  and the decrypt-direction loop computes the same function as the encrypt-direction loop.
\<close>

theorem ctr_self_inverse:
  "ctr_encrypt ctr0 K1 K2 (ctr_encrypt ctr0 K1 K2 xs) = xs \<and>
   ctr_decrypt ctr0 K1 K2 (ctr_encrypt ctr0 K1 K2 xs) = xs \<and>
   ctr_decrypt ctr0 K1 K2 xs = ctr_encrypt ctr0 K1 K2 xs \<and>
   ctr_encrypt 255 K1 K2 [a, b] =
     [a XOR sdes_encrypt_byte 255 K1 K2, b XOR sdes_encrypt_byte 0 K1 K2]"
proof -
  have wrap: "(255::u8) + 1 = 0" by simp
  have "ctr_encrypt 255 K1 K2 [a, b] =
      [a XOR sdes_encrypt_byte 255 K1 K2, b XOR sdes_encrypt_byte 0 K1 K2]"
    unfolding ctr_encrypt.simps Let_def wrap by (rule refl)
  then show ?thesis
    by (simp add: ctr_decrypt_eq ctr_encrypt_twice)
qed

text \<open>
  C9 (as stated) fails: with the subkeys of master key 0x282, IV 1 and plaintext
  [183, 183], the first CBC ciphertext byte is 0, so the second CBC byte equals the
  second ECB byte.
\<close>

theorem cbc_ecb_second_byte_equal:
  "sdes_generate_subkeys 0x282 = (0xA4, 0x43) \<and> (1::u8) \<noteq> 0 \<and>
   2 \<le> length [183, 183 :: u8] \<and> [183, 183 :: u8] ! 0 = [183, 183] ! 1 \<and>
   cbc_encrypt 1 0xA4 0x43 [183, 183] ! 1 = ecb_encrypt 0xA4 0x43 [183, 183] ! 1"
  by code_simp

lemma xor_eq_self_iff: "a XOR c = a \<longleftrightarrow> c = 0" for a c :: u8
proof
  assume "a XOR c = a"
  then have "a XOR (a XOR c) = a XOR a" by simp
  then show "c = 0" by (simp flip: xor.assoc)
qed simp

text \<open>
  C9 (as amended). For every subkey pair, every IV and every plaintext of length at least
  2 whose first two bytes are equal, the second CBC ciphertext byte differs from the
  second ECB ciphertext byte exactly when the first CBC ciphertext byte is not 0.
\<close>

theorem cbc_ecb_second_byte:
  assumes "2 \<le> length p" and "p ! 0 = p ! 1"
  shows "cbc_encrypt iv K1 K2 p ! 1 \<noteq> ecb_encrypt K1 K2 p ! 1 \<longleftrightarrow>
         cbc_encrypt iv K1 K2 p ! 0 \<noteq> 0"
proof -
  from assms obtain a rest where p: "p = a # a # rest"
    by (cases p; cases "tl p") auto
  show ?thesis
    by (simp add: p Let_def inj_encrypt xor_eq_self_iff)
qed

theorem cbc_ecb_second_byte_witness:
  "2 \<le> length [0, 0 :: u8] \<and> [0, 0 :: u8] ! 0 = [0, 0] ! 1 \<and>
   cbc_encrypt 1 0xA4 0x43 [0, 0] ! 0 = 129 \<and>
   cbc_encrypt 1 0xA4 0x43 [0, 0] ! 1 \<noteq> ecb_encrypt 0xA4 0x43 [0, 0] ! 1"
proof -
  have len: "2 \<le> length [0, 0 :: u8]" and eq: "[0, 0 :: u8] ! 0 = [0, 0] ! 1"
    by simp_all
  have first: "cbc_encrypt 1 0xA4 0x43 [0, 0] ! 0 = 129"
    by code_simp
  then have "cbc_encrypt 1 0xA4 0x43 [0, 0] ! 0 \<noteq> 0"
    by simp
  with cbc_ecb_second_byte [OF len eq, of 1 "0xA4" "0x43"] len eq first
  show ?thesis by blast
qed

section \<open>Key parsing\<close>

lemma parse_loop_invalid:
  "\<exists>ch\<in>set (scanned s). \<not> key_char ch \<Longrightarrow> parse_loop s n k = Inl InvalidKeyFormat"
proof (induction s arbitrary: n k)
  case Nil
  then show ?case by (simp add: scanned_def)
next
  case (Cons ch s)
  show ?case
  proof (cases "ch = CHR 0x00 \<or> ch = CHR 0x0A \<or> ch = CHR 0x0D")
    case True
    then have "scanned (ch # s) = []" by (auto simp: scanned_def)
    with Cons.prems show ?thesis by simp
  next
    case stop: False
    then have sc: "scanned (ch # s) = ch # scanned s" by (simp add: scanned_def)
    show ?thesis
    proof (cases "key_char ch")
      case False
      with stop show ?thesis
        by (simp add: key_char_def is_bit_char_def is_blank_char_def)
    next
      case True
      with Cons.prems sc have "\<exists>c\<in>set (scanned s). \<not> key_char c" by auto
      then have r: "parse_loop s m j = Inl InvalidKeyFormat" for m j by (rule Cons.IH)
      from stop show ?thesis by (simp add: r)
    qed
  qed
qed

lemma shift_in_bit:
  "is_bit_char ch \<Longrightarrow>
   push_bit 1 (of_nat v :: u16) OR of_nat (of_char ch - of_char (CHR ''0'')) =
   of_nat (2 * v + of_bool (ch = CHR ''1''))"
  by (auto simp: is_bit_char_def or_one_eq)

text \<open>
  On a line of bit and blank characters the loop ends with the number of characters
  scanned and the value of the significant bits read most-significant-first (modulo
  \<open>2 ^ 16\<close>, the width of the accumulator).
\<close>

lemma parse_loop_valid:
  "\<forall>ch\<in>set (scanned s). key_char ch \<Longrightarrow>
   parse_loop s n (of_nat v) =
     Inr (n + length (scanned s), of_nat (foldl (\<lambda>v b. 2 * v + of_bool b) v (key_bits s)))"
proof (induction s arbitrary: n v)
  case Nil
  show ?case by (simp add: scanned_def key_bits_def)
next
  case (Cons ch s)
  show ?case
  proof (cases "ch = CHR 0x00 \<or> ch = CHR 0x0A \<or> ch = CHR 0x0D")
    case True
    then show ?thesis by (auto simp: scanned_def key_bits_def)
  next
    case stop: False
    then have sc: "scanned (ch # s) = ch # scanned s" by (simp add: scanned_def)
    with Cons.prems have rest: "\<forall>c\<in>set (scanned s). key_char c"
      and here: "is_bit_char ch \<or> is_blank_char ch" by (simp_all add: key_char_def)
    show ?thesis
    proof (cases "is_bit_char ch")
      case True
      have "parse_loop (ch # s) n (of_nat v) =
          parse_loop s (Suc n) (of_nat (2 * v + of_bool (ch = CHR ''1'')))"
        using stop True shift_in_bit [OF True, of v]
        by (simp add: is_bit_char_def)
      also have "\<dots> = Inr (Suc n + length (scanned s),
          of_nat (foldl (\<lambda>v b. 2 * v + of_bool b) (2 * v + of_bool (ch = CHR ''1''))
            (key_bits s)))"
        by (rule Cons.IH [OF rest])
      finally show ?thesis using True by (simp add: sc key_bits_def)
    next
      case False
      with here have bl: "is_blank_char ch" by simp
      have "parse_loop (ch # s) n (of_nat v) = parse_loop s (Suc n) (of_nat v)"
        using stop False bl by (simp add: is_bit_char_def is_blank_char_def)
      also have "\<dots> = Inr (Suc n + length (scanned s),
          of_nat (foldl (\<lambda>v b. 2 * v + of_bool b) v (key_bits s)))"
        by (rule Cons.IH [OF rest])
      finally show ?thesis using False by (simp add: sc key_bits_def)
    qed
  qed
qed

lemma parse_loop_valid_start:
  "list_all key_char (scanned s) \<Longrightarrow>
   parse_loop s 0 0 = Inr (length (scanned s), of_nat (bin_value (key_bits s)))"
  using parse_loop_valid [of s 0 0] by (simp add: bin_value_def list_all_iff)

lemma foldl_bits_mod:
  "foldl (\<lambda>v b. 2 * v + of_bool b) 0 bs mod 2 ^ n =
   foldl (\<lambda>v b. 2 * v + of_bool b) (0::nat) (drop (length bs - n) bs)"
proof (induction bs arbitrary: n rule: rev_induct)
  case Nil
  show ?case by simp
next
  case (snoc b bs)
  show ?case
  proof (cases n)
    case 0
    then show ?thesis by simp
  next
    case (Suc m)
    let ?V = "foldl (\<lambda>v b. 2 * v + of_bool b) (0::nat) bs"
    let ?W = "2 * ?V + of_bool b"
    have "?W mod (2 * 2 ^ m) = 2 * (?W div 2 mod 2 ^ m) + ?W mod 2"
      by (rule mod_mult2_eq)
    moreover have "?W div 2 = ?V" by (cases b) simp_all
    moreover have "?W mod 2 = of_bool b" by (cases b) simp_all
    ultimately have "?W mod 2 ^ Suc m = 2 * (?V mod 2 ^ m) + of_bool b"
      by (simp only: power_Suc)
    moreover have "drop (length (bs @ [b]) - Suc m) (bs @ [b]) = drop (length bs - m) bs @ [b]"
      by simp
    ultimately show ?thesis
      unfolding Suc by (simp only: foldl_append foldl.simps snoc.IH [of m])
  qed
qed

lemma bin_value_mod: "bin_value bs mod 2 ^ n = bin_value (drop (length bs - n) bs)"
  unfolding bin_value_def by (rule foldl_bits_mod)

lemma and_3FF_of_nat: "(of_nat v :: u16) AND 0x03FF = of_nat (v mod 2 ^ 10)"
proof -
  have e: "(0x03FF::u16) = mask 10" by (simp add: mask_eq_exp_minus_1)
  have "(of_nat v :: u16) AND mask 10 = take_bit 10 (of_nat v)"
    by (simp only: take_bit_eq_mask)
  also have "\<dots> = of_nat (take_bit 10 v)"
    by (simp only: take_bit_of_nat)
  also have "take_bit 10 v = v mod 2 ^ 10"
    by (simp only: take_bit_eq_mod)
  finally show ?thesis unfolding e .
qed

lemma length_key_bits_le: "length (key_bits s) \<le> length (scanned s)"
  by (simp add: key_bits_def)

lemmas parse_eval =
  sdes_parse_key10_bits_def scanned_def key_bits_def bin_value_def key_char_def
  is_bit_char_def is_blank_char_def

text \<open>
  The length test reads the character index, which blanks advance too: a line of 11
  characters holding 6 bits is accepted.
\<close>

lemma parse_counts_blanks:
  "sdes_parse_key10_bits (Some ''1 0 1 0 1 0'') True = Inr 0x2A"
  by (simp add: sdes_parse_key10_bits_def)

text \<open>
  C7 (as stated) fails: the key string "12345" is rejected as InvalidKeyFormat (-2), not
  as KeyTooShort (-3), because the character '2' is met before the length is checked.
\<close>

theorem parse_12345_not_too_short:
  "sdes_parse_key10_bits (Some ''12345'') True = Inl InvalidKeyFormat \<and>
   sdes_status (sdes_parse_key10_bits (Some ''12345'') True) = -2 \<and>
   sdes_parse_key10_bits (Some ''12345'') True \<noteq> Inl KeyTooShort"
  by (simp add: sdes_parse_key10_bits_def)

text \<open>
  C7 (as amended). With non-null arguments: if the scanned part of the key string (up to
  the first NUL, line feed or carriage return) holds a character other than '0', '1',
  space or tab, the result is InvalidKeyFormat (-2); if it holds only such characters and
  fewer than 10 characters in all, the result is KeyTooShort (-3); if it holds only such
  characters and at least 10 significant bits, parsing succeeds with return value 0. Both
  "12345" and "10x0000000" give InvalidKeyFormat.
\<close>

theorem parse_key_errors:
  "(\<not> list_all key_char (scanned s) \<longrightarrow>
      sdes_parse_key10_bits (Some s) True = Inl InvalidKeyFormat \<and>
      sdes_status (sdes_parse_key10_bits (Some s) True) = -2) \<and>
   (list_all key_char (scanned s) \<and> length (scanned s) < 10 \<longrightarrow>
      sdes_parse_key10_bits (Some s) True = Inl KeyTooShort \<and>
      sdes_status (sdes_parse_key10_bits (Some s) True) = -3) \<and>
   (list_all key_char (scanned s) \<and> 10 \<le> length (key_bits s) \<longrightarrow>
      (\<exists>k. sdes_parse_key10_bits (Some s) True = Inr k) \<and>
      sdes_status (sdes_parse_key10_bits (Some s) True) = 0) \<and>
   sdes_parse_key10_bits (Some ''12345'') True = Inl InvalidKeyFormat \<and>
   sdes_parse_key10_bits (Some ''10x0000000'') True = Inl InvalidKeyFormat"
proof -
  have bad: "sdes_parse_key10_bits (Some s) True = Inl InvalidKeyFormat"
    if "\<not> list_all key_char (scanned s)"
  proof -
    from that have "\<exists>ch\<in>set (scanned s). \<not> key_char ch"
      by (simp add: list_all_iff)
    then have "parse_loop s 0 0 = Inl InvalidKeyFormat"
      by (rule parse_loop_invalid)
    then show ?thesis by (simp add: sdes_parse_key10_bits_def)
  qed
  have short: "sdes_parse_key10_bits (Some s) True = Inl KeyTooShort"
    if "list_all key_char (scanned s)" and "length (scanned s) < 10"
    using parse_loop_valid_start [OF that(1)] that(2)
    by (simp add: sdes_parse_key10_bits_def)
  have good: "\<exists>k. sdes_parse_key10_bits (Some s) True = Inr k"
    if "list_all key_char (scanned s)" and "10 \<le> length (key_bits s)"
    using parse_loop_valid_start [OF that(1)] that(2) length_key_bits_le [of s]
    by (simp add: sdes_parse_key10_bits_def)
  have fixed: "sdes_parse_key10_bits (Some ''12345'') True = Inl InvalidKeyFormat"
    "sdes_parse_key10_bits (Some ''10x0000000'') True = Inl InvalidKeyFormat"
    by (simp_all add: sdes_parse_key10_bits_def)
  from bad short good fixed show ?thesis
    by (metis sdes_status.simps(2) sdes_status.simps(3) sdes_status.simps(4))
qed

theorem parse_key_errors_witness:
  "\<not> list_all key_char (scanned ''1x'') \<and>
   sdes_status (sdes_parse_key10_bits (Some ''1x'') True) = -2 \<and>
   list_all key_char (scanned ''1 01'') \<and> length (scanned ''1 01'') < 10 \<and>
   sdes_status (sdes_parse_key10_bits (Some ''1 01'') True) = -3 \<and>
   list_all key_char (scanned ''10100 00010'') \<and> 10 \<le> length (key_bits ''10100 00010'') \<and>
   sdes_status (sdes_parse_key10_bits (Some ''10100 00010'') True) = 0"
proof -
  have h1: "\<not> list_all key_char (scanned ''1x'')"
    by (simp add: parse_eval)
  have h2: "list_all key_char (scanned ''1 01'') \<and> length (scanned ''1 01'') < 10"
    by (simp add: parse_eval)
  have h3: "list_all key_char (scanned ''10100 00010'') \<and>
      10 \<le> length (key_bits ''10100 00010'')"
    by (simp add: parse_eval)
  from parse_key_errors [of "''1x''"] parse_key_errors [of "''1 01''"]
    parse_key_errors [of "''10100 00010''"] h1 h2 h3
  show ?thesis by blast
qed

text \<open>
  C8 (as stated) fails: "11111111110" and "11111111111" have the same first 10
  significant bits, yet parse to different keys, and the key parsed from "11111111110"
  is not the value of its first 10 significant bits.
\<close>

theorem parse_not_first_ten_bits:
  "take 10 (key_bits ''11111111110'') = take 10 (key_bits ''11111111111'') \<and>
   sdes_parse_key10_bits (Some ''11111111110'') True = Inr 0x3FE \<and>
   sdes_parse_key10_bits (Some ''11111111111'') True = Inr 0x3FF \<and>
   (of_nat (bin_value (take 10 (key_bits ''11111111110''))) :: u16) = 0x3FF"
  by (simp add: parse_eval)

text \<open>
  C8 (as amended). For every key string whose scanned part holds only bit and blank
  characters and at least 10 significant bits, the parsed key is the value of the last 10
  significant bits, read left to right most-significant-first; earlier bit characters do
  not affect it.
\<close>

theorem parse_uses_last_ten_bits:
  assumes "list_all key_char (scanned s)" and "10 \<le> length (key_bits s)"
  shows "sdes_parse_key10_bits (Some s) True =
     Inr (of_nat (bin_value (drop (length (key_bits s) - 10) (key_bits s))))"
proof -
  have "\<not> length (scanned s) < 10"
    using assms(2) length_key_bits_le [of s] by simp
  with parse_loop_valid_start [OF assms(1)]
  have "sdes_parse_key10_bits (Some s) True = Inr (of_nat (bin_value (key_bits s)) AND 0x03FF)"
    by (simp add: sdes_parse_key10_bits_def)
  then show ?thesis
    unfolding and_3FF_of_nat bin_value_mod .
qed

theorem parse_uses_last_ten_bits_witness:
  "list_all key_char (scanned ''11111111110'') \<and> 10 \<le> length (key_bits ''11111111110'') \<and>
   drop (length (key_bits ''11111111110'') - 10) (key_bits ''11111111110'') =
     [True, True, True, True, True, True, True, True, True, False] \<and>
   sdes_parse_key10_bits (Some ''11111111110'') True =
     Inr (of_nat (bin_value [True, True, True, True, True, True, True, True, True, False]))"
proof -
  have h1: "list_all key_char (scanned ''11111111110'')"
    and h2: "10 \<le> length (key_bits ''11111111110'')"
    and h3: "drop (length (key_bits ''11111111110'') - 10) (key_bits ''11111111110'') =
     [True, True, True, True, True, True, True, True, True, False]"
    by (simp_all add: parse_eval)
  from parse_uses_last_ten_bits [OF h1 h2] h1 h2 h3 show ?thesis
    by simp
qed

section \<open>The block cipher follows the specification\<close>

lemma fk_mix_stages:
  "fk_mix R subkey = ucast (permute (ucast (fk_sboxes (fk_expand R subkey))) P4 4 4)"
  unfolding fk_mix_def fk_sboxes_def fk_expand_def Let_def by (rule refl)

lemma bits_msb_2: "bits_msb 2 w = [bit w 1, bit w 0]"
  by (simp add: bits_msb_def upt_rec)

lemma bits_msb_4: "bits_msb 4 w = [bit w 3, bit w 2, bit w 1, bit w 0]"
  by (simp add: bits_msb_def upt_rec)

lemma bits_msb_8:
  "bits_msb 8 w = [bit w 7, bit w 6, bit w 5, bit w 4, bit w 3, bit w 2, bit w 1, bit w 0]"
  by (simp add: bits_msb_def upt_rec)

lemma bits_msb_10:
  "bits_msb 10 w =
     [bit w 9, bit w 8, bit w 7, bit w 6, bit w 5, bit w 4, bit w 3, bit w 2, bit w 1, bit w 0]"
  by (simp add: bits_msb_def upt_rec)

lemma bits_msb_8_inj: "bits_msb 8 (a::u8) = bits_msb 8 b \<longleftrightarrow> a = b"
  by (auto simp: bits_msb_8 u8_eq_iff)

lemma ip_spec: "bits_msb 8 (ip x) = spec_select [2, 6, 3, 1, 4, 8, 5, 7] (bits_msb 8 x)"
  by (simp add: bits_msb_8 spec_select_def bit_ip IP_def)

lemma ip_inv_spec: "bits_msb 8 (ip_inv x) = spec_select [4, 1, 3, 5, 7, 2, 8, 6] (bits_msb 8 x)"
  by (simp add: bits_msb_8 spec_select_def bit_ip_inv IP_INV_def)

lemma swap_spec: "bits_msb 8 (swap_halves x) = spec_swap (bits_msb 8 x)"
  by (simp add: bits_msb_8 spec_swap_def bit_swap_halves)

lemma bits_low_nibble: "bits_msb 4 (x AND (0x0F::u8)) = drop 4 (bits_msb 8 x)"
  by (simp add: bits_msb_4 bits_msb_8 bit_and_0F)

lemma bits_high_nibble: "bits_msb 4 (drop_bit 4 x AND (0x0F::u8)) = take 4 (bits_msb 8 x)"
  by (simp add: bits_msb_4 bits_msb_8 bit_and_0F bit_drop_bit_eq)

lemma bit_fk_expand:
  "bit (fk_expand R subkey) m \<longleftrightarrow> (m < 8 \<and> bit R (4 - EP ! (7 - m))) \<noteq> bit subkey m"
proof -
  have "length EP = 8" by (simp add: EP_def)
  then show ?thesis
    unfolding fk_expand_def bit_xor_iff bit_ucast_iff bit_permute by auto
qed

lemma expand_spec:
  "bits_msb 8 (fk_expand R subkey) =
     spec_xor (spec_select [4, 1, 2, 3, 2, 3, 4, 1] (bits_msb 4 R)) (bits_msb 8 subkey)"
  by (simp add: bits_msb_8 bits_msb_4 spec_select_def spec_xor_def bit_fk_expand EP_def)

lemma sbox_row: "unat (drop_bit 2 (v AND 0x8) OR (v AND 0x1) :: u8) = 2 * of_bool (bit v 3) + of_bool (bit v 0)"
proof -
  have "drop_bit 2 (v AND 0x8) OR (v AND 0x1) =
      (if bit v 3 then (if bit v 0 then 3 else 2) else (if bit v 0 then 1 else (0::u8)))"
    by (simp add: u8_eq_iff bit_or_iff bit_and_iff bit_drop_bit_eq bit_1_iff)
  then show ?thesis by simp
qed

lemma sbox_col: "unat (drop_bit 1 v AND 0x3 :: u8) = 2 * of_bool (bit v 2) + of_bool (bit v 1)"
proof -
  have "drop_bit 1 v AND 0x3 =
      (if bit v 2 then (if bit v 1 then 3 else 2) else (if bit v 1 then 1 else (0::u8)))"
    by (simp add: u8_eq_iff bit_or_iff bit_and_iff bit_drop_bit_eq bit_1_iff
        flip: numeral_2_eq_2)
  then show ?thesis by simp
qed

lemma S0_spec:
  "bits_msb 4 (S0 ! unat (drop_bit 2 (v AND 0x8) OR (v AND 0x1)) ! unat (drop_bit 1 v AND 0x3)) =
     False # False # spec_sbox spec_S0 (bits_msb 4 v)" for v :: u8
  unfolding sbox_row sbox_col
  by (cases "bit v 3"; cases "bit v 2"; cases "bit v 1"; cases "bit v 0")
     (simp_all add: bits_msb_4 spec_sbox_def S0_def spec_S0_def)

lemma S1_spec:
  "bits_msb 4 (S1 ! unat (drop_bit 2 (v AND 0x8) OR (v AND 0x1)) ! unat (drop_bit 1 v AND 0x3)) =
     False # False # spec_sbox spec_S1 (bits_msb 4 v)" for v :: u8
  unfolding sbox_row sbox_col
  by (cases "bit v 3"; cases "bit v 2"; cases "bit v 1"; cases "bit v 0")
     (simp_all add: bits_msb_4 spec_sbox_def S1_def spec_S1_def)

lemma length_spec_sbox: "length (spec_sbox tbl h) = 2"
  by (simp add: spec_sbox_def Let_def)

lemma join_sbox_outputs:
  assumes "bits_msb 4 (s0::u8) = False # False # p" and "bits_msb 4 (s1::u8) = False # False # q"
    and "length p = 2"
  shows "bits_msb 4 (push_bit 2 s0 OR s1) = p @ q"
proof -
  from assms(1,3) have p: "p = [bit s0 1, bit s0 0]" by (auto simp: bits_msb_4)
  from assms(2) have q: "\<not> bit s1 3" "\<not> bit s1 2" "q = [bit s1 1, bit s1 0]"
    by (auto simp: bits_msb_4)
  have "bit (push_bit 2 s0 OR s1) 3 = bit s0 1" "bit (push_bit 2 s0 OR s1) 2 = bit s0 0"
    "bit (push_bit 2 s0 OR s1) 1 = bit s1 1" "bit (push_bit 2 s0 OR s1) 0 = bit s1 0"
    unfolding bit_or_iff bit_push_bit_iff using q(1,2) by simp_all
  then show ?thesis by (simp add: bits_msb_4 p q)
qed

lemma sboxes_spec:
  "bits_msb 4 (fk_sboxes x) =
     spec_sbox spec_S0 (take 4 (bits_msb 8 x)) @ spec_sbox spec_S1 (drop 4 (bits_msb 8 x))"
proof -
  have l: "bits_msb 4 (S0 ! unat (drop_bit 2 ((drop_bit 4 x AND 0x0F) AND 0x8) OR
        ((drop_bit 4 x AND 0x0F) AND 0x1)) ! unat (drop_bit 1 (drop_bit 4 x AND 0x0F) AND 0x3)) =
      False # False # spec_sbox spec_S0 (take 4 (bits_msb 8 x))"
    using S0_spec [of "drop_bit 4 x AND 0x0F"] unfolding bits_high_nibble .
  have r: "bits_msb 4 (S1 ! unat (drop_bit 2 ((x AND 0x0F) AND 0x8) OR
        ((x AND 0x0F) AND 0x1)) ! unat (drop_bit 1 (x AND 0x0F) AND 0x3)) =
      False # False # spec_sbox spec_S1 (drop 4 (bits_msb 8 x))"
    using S1_spec [of "x AND 0x0F"] unfolding bits_low_nibble .
  show ?thesis
    unfolding fk_sboxes_def Let_def
    by (rule join_sbox_outputs [OF l r length_spec_sbox])
qed

lemma mix_spec:
  "bits_msb 4 (fk_mix R subkey) =
     spec_select [2, 4, 3, 1] (bits_msb 4 (fk_sboxes (fk_expand R subkey)))"
proof -
  have "length P4 = 4" by (simp add: P4_def)
  then have "bit (fk_mix R subkey) m \<longleftrightarrow>
      m < 4 \<and> bit (fk_sboxes (fk_expand R subkey)) (4 - P4 ! (3 - m))" for m
    unfolding fk_mix_stages bit_ucast_iff bit_permute by auto
  then show ?thesis
    by (simp add: bits_msb_4 spec_select_def P4_def)
qed

lemma fk_bits:
  "bits_msb 8 (fk x k) =
     spec_xor (take 4 (bits_msb 8 x)) (bits_msb 4 (fk_mix (x AND 0x0F) k)) @ drop 4 (bits_msb 8 x)"
  by (simp add: bits_msb_8 bits_msb_4 spec_xor_def bit_fk)

lemma fk_spec: "bits_msb 8 (fk x k) = spec_fk (bits_msb 8 x) (bits_msb 8 k)"
  unfolding fk_bits mix_spec sboxes_spec expand_spec bits_low_nibble spec_fk_def Let_def
  by (rule refl)

lemma encrypt_spec:
  "bits_msb 8 (sdes_encrypt_byte b K1 K2) =
     spec_encrypt (bits_msb 8 b) (bits_msb 8 K1) (bits_msb 8 K2)"
  unfolding sdes_encrypt_byte_def Let_def spec_encrypt_def ip_inv_spec fk_spec swap_spec ip_spec
  by (rule refl)


lemma decrypt_spec:
  "bits_msb 8 (sdes_decrypt_byte b K1 K2) =
     spec_decrypt (bits_msb 8 b) (bits_msb 8 K1) (bits_msb 8 K2)"
  unfolding sdes_decrypt_byte_def Let_def spec_decrypt_def ip_inv_spec fk_spec swap_spec ip_spec
  by (rule refl)

text \<open>
  C2. On bit strings read most-significant bit first, \<open>sdes_encrypt_byte\<close> is IP
  (2,6,3,1,4,8,5,7), the round with K1, the swap of the two nibbles, the round with K2,
  then IP-inverse (4,1,3,5,7,2,8,6); \<open>sdes_decrypt_byte\<close> is the same sequence with K2 in
  the first round and K1 in the second; and the round \<open>fk\<close> expands the low nibble by EP
  (4,1,2,3,2,3,4,1), XORs it with the subkey, looks the left half up in S0 and the right
  half in S1 with row (bit0, bit3) and column (bit1, bit2), concatenates the two 2-bit
  results, permutes them by P4 (2,4,3,1) and XORs them into the high nibble, leaving the
  low nibble as it is.
\<close>

theorem block_cipher_follows_spec:
  "bits_msb 8 (sdes_encrypt_byte b K1 K2) =
     spec_encrypt (bits_msb 8 b) (bits_msb 8 K1) (bits_msb 8 K2) \<and>
   bits_msb 8 (sdes_decrypt_byte b K1 K2) =
     spec_decrypt (bits_msb 8 b) (bits_msb 8 K1) (bits_msb 8 K2) \<and>
   bits_msb 8 (fk x k) = spec_fk (bits_msb 8 x) (bits_msb 8 k)"
  by (simp only: encrypt_spec decrypt_spec fk_spec)

section \<open>The key schedule follows the specification\<close>

lemma bit_and_1F: "bit (w AND (0x1F::u16)) m \<longleftrightarrow> m < 5 \<and> bit w m"
proof -
  have e: "(0x1F::u16) = mask 5" by (simp add: mask_eq_exp_minus_1)
  show ?thesis unfolding e bit_and_iff bit_mask_iff by auto
qed

lemma bit_rol:
  assumes "sh \<le> width" and "width \<le> 16"
  shows "bit (rol val sh width) m \<longleftrightarrow>
     m < width \<and> (if sh \<le> m then bit val (m - sh) else bit val (m + width - sh))"
proof -
  have e: "push_bit width 1 - 1 = (mask width :: u16)"
    by (simp add: mask_eq_exp_minus_1)
  show ?thesis
    unfolding rol_def Let_def e bit_and_iff bit_or_iff bit_push_bit_iff bit_drop_bit_eq
      bit_mask_iff
    using assms by (auto simp: add.commute)
qed

lemma bits_msb_5: "bits_msb 5 w = [bit w 4, bit w 3, bit w 2, bit w 1, bit w 0]"
  by (simp add: bits_msb_def upt_rec)

lemma rotate_1_five: "rotate 1 [a, b, c, d, e] = [b, c, d, e, a]"
  by simp

lemma rotate_2_five: "rotate 2 [a, b, c, d, e] = [c, d, e, a, b]"
  by (simp add: numeral_2_eq_2)

lemma p10_spec:
  "bits_msb 10 (permute key10 P10 10 10) =
     spec_select [3, 5, 2, 7, 4, 10, 1, 9, 8, 6] (bits_msb 10 key10)"
proof -
  have "length P10 = 10" by (simp add: P10_def)
  then have "bit (permute key10 P10 10 10) m \<longleftrightarrow> m < 10 \<and> bit key10 (10 - P10 ! (9 - m))"
    for m
    unfolding bit_permute by auto
  then show ?thesis
    by (simp add: bits_msb_10 spec_select_def P10_def)
qed

lemma p8_spec:
  "bits_msb 8 (ucast (permute ls P8 8 10) :: u8) =
     spec_select [6, 3, 7, 4, 8, 5, 10, 9] (bits_msb 10 ls)"
proof -
  have "length P8 = 8" by (simp add: P8_def)
  then have "bit (ucast (permute ls P8 8 10) :: u8) m \<longleftrightarrow> m < 8 \<and> bit ls (10 - P8 ! (7 - m))"
    for m
    unfolding bit_ucast_iff bit_permute by auto
  then show ?thesis
    by (simp add: bits_msb_8 bits_msb_10 spec_select_def P8_def)
qed

lemma bits_left_half: "bits_msb 5 (drop_bit 5 p AND (0x1F::u16)) = take 5 (bits_msb 10 p)"
  by (simp add: bits_msb_5 bits_msb_10 bit_and_1F bit_drop_bit_eq)

lemma bits_right_half: "bits_msb 5 (p AND (0x1F::u16)) = drop 5 (bits_msb 10 p)"
  by (simp add: bits_msb_5 bits_msb_10 bit_and_1F)

lemma rol_1_spec: "bits_msb 5 (rol v 1 5) = rotate 1 (bits_msb 5 v)"
  by (simp add: bits_msb_5 bit_rol)

lemma rol_2_spec: "bits_msb 5 (rol v 2 5) = rotate 2 (bits_msb 5 v)"
  unfolding bits_msb_5 rotate_2_five by (simp add: bit_rol)

lemma join_halves:
  assumes "sh \<le> 5" and "sh' \<le> 5"
  shows "bits_msb 10 (push_bit 5 (rol a sh 5) OR rol b sh' 5) =
     bits_msb 5 (rol a sh 5) @ bits_msb 5 (rol b sh' 5)"
proof -
  have hi: "bit (rol b sh' 5) m \<Longrightarrow> m < 5" "bit (rol a sh 5) m \<Longrightarrow> m < 5" for m
    using assms by (simp_all add: bit_rol)
  have "bit (push_bit 5 (rol a sh 5) OR rol b sh' 5) m \<longleftrightarrow>
      (if m < 5 then bit (rol b sh' 5) m else bit (rol a sh 5) (m - 5))" for m
    unfolding bit_or_iff bit_push_bit_iff using hi(1) [of m] hi(2) [of "m - 5"] by auto
  then show ?thesis
    by (simp add: bits_msb_10 bits_msb_5)
qed

lemma join_1:
  "bits_msb 10 (push_bit 5 (rol a 1 5) OR rol b 1 5) =
     rotate 1 (bits_msb 5 a) @ rotate 1 (bits_msb 5 b)"
  using join_halves [of 1 1 a b] by (simp only: rol_1_spec)

lemma join_2:
  "bits_msb 10 (push_bit 5 (rol a 2 5) OR rol b 2 5) =
     rotate 2 (bits_msb 5 a) @ rotate 2 (bits_msb 5 b)"
  using join_halves [of 2 2 a b] by (simp only: rol_2_spec)

lemma subkeys_bits:
  "map_prod (bits_msb 8) (bits_msb 8) (sdes_generate_subkeys k) = spec_subkeys (bits_msb 10 k)"
proof -
  define p where "p = permute k P10 10 10"
  define l where "l = drop_bit 5 p AND 0x1F"
  define r where "r = p AND 0x1F"
  have P: "bits_msb 10 p = spec_select [3, 5, 2, 7, 4, 10, 1, 9, 8, 6] (bits_msb 10 k)"
    unfolding p_def by (rule p10_spec)
  have L: "bits_msb 5 l = take 5 (bits_msb 10 p)"
    unfolding l_def by (rule bits_left_half)
  have R: "bits_msb 5 r = drop 5 (bits_msb 10 p)"
    unfolding r_def by (rule bits_right_half)
  have "sdes_generate_subkeys k =
      (ucast (permute (push_bit 5 (rol l 1 5) OR rol r 1 5) P8 8 10),
       ucast (permute (push_bit 5 (rol (rol l 1 5) 2 5) OR rol (rol r 1 5) 2 5) P8 8 10))"
    by (simp only: sdes_generate_subkeys_def Let_def p_def l_def r_def)
  then show ?thesis
    by (simp only: map_prod_simp p8_spec join_1 join_2 rol_1_spec L R P spec_subkeys_def Let_def)
qed

text \<open>
  C3. On bit strings read most-significant bit first, the subkeys of a master key (its low
  10 bits) are: K1 is P8 (6,3,7,4,8,5,10,9) of the two 5-bit halves of P10
  (3,5,2,7,4,10,1,9,8,6) of the key, each rotated left by 1; K2 is P8 of the same two
  halves, each rotated left by 2 more from the rotated-by-1 state.
\<close>

theorem key_schedule_follows_spec:
  "map_prod (bits_msb 8) (bits_msb 8) (sdes_generate_subkeys key10) =
     spec_subkeys (bits_msb 10 key10)"
  by (rule subkeys_bits)

end
